theory Spec2Isabelle
  imports
    Complex_Main
    "HOL-Library.List_Lexorder"
    "HOL-Library.Product_Lexorder"
    "HOL-Library.Sublist"
begin

section \<open>Python values, strings and exceptions\<close>

text \<open>
  A Python \<open>str\<close> is the list of its code points, as integers: \<open>len\<close>, slices,
  \<open>strip\<close> and the order of two strings all count code points, so a character
  outside ASCII is one element. \<open>ustr\<close> turns a literal into such a string, each character into its code.
  The keys of a dict and the path of a file are only ever compared for equality; they
  stay \<^typ>\<open>string\<close>.

  An exception is a value of \<open>error\<close>; a call that may raise returns \<open>error + 'a\<close>.
  \<open>Raised msg\<close> is any exception an external service (database, vector store, scoring
  model) throws, with \<open>str(e) = msg\<close>.
\<close>

type_synonym ustring = "int list"

definition ustr :: "string \<Rightarrow> ustring" where
  "ustr s = map of_char s"

datatype error = IndexError | TypeError | ZeroDivisionError | Raised ustring

text \<open>The scalar values a document's metadata holds (floats are left out).\<close>

datatype pyval = PNone | PBool bool | PInt int | PStr ustring

fun str_nat :: "nat \<Rightarrow> ustring" where
  "str_nat n =
     (if n < 10 then [48 + int n]
      else str_nat (n div 10) @ [48 + int (n mod 10)])"

declare str_nat.simps [simp del]

definition str_int :: "int \<Rightarrow> ustring" where
  "str_int i = (if i < 0 then 45 # str_nat (nat (- i)) else str_nat (nat i))"

text \<open>\<open>str(v)\<close>.\<close>

fun py_str :: "pyval \<Rightarrow> ustring" where
  "py_str PNone = ustr ''None''"
| "py_str (PBool b) = (if b then ustr ''True'' else ustr ''False'')"
| "py_str (PInt i) = str_int i"
| "py_str (PStr s) = s"

text \<open>
  \<open>c.isspace()\<close>: the white space of Unicode, which is what \<open>strip\<close> removes. Besides
  the ASCII characters these are U+0085, U+00A0, U+1680, U+2000 to U+200A, U+2028,
  U+2029, U+202F, U+205F and U+3000.
\<close>

definition is_space :: "int \<Rightarrow> bool" where
  "is_space c \<longleftrightarrow>
     (9 \<le> c \<and> c \<le> 13) \<or> (28 \<le> c \<and> c \<le> 32) \<or> c = 0x85 \<or> c = 0xA0 \<or> c = 0x1680
     \<or> (0x2000 \<le> c \<and> c \<le> 0x200A) \<or> c = 0x2028 \<or> c = 0x2029 \<or> c = 0x202F
     \<or> c = 0x205F \<or> c = 0x3000"

text \<open>\<open>s.strip()\<close>.\<close>

definition strip :: "ustring \<Rightarrow> ustring" where
  "strip s = rev (dropWhile is_space (rev (dropWhile is_space s)))"

text \<open>\<open>needle in s\<close> for strings: \<open>needle\<close> occurs in \<open>s\<close> as a contiguous run.\<close>

fun py_in :: "ustring \<Rightarrow> ustring \<Rightarrow> bool" where
  "py_in needle [] = (needle = [])"
| "py_in needle (c # cs) = (prefix needle (c # cs) \<or> py_in needle cs)"

text \<open>
  \<open>s.lower()\<close>. The letters \<open>A\<close> to \<open>Z\<close> go to \<open>a\<close> to \<open>z\<close>; outside ASCII only U+0130
  (to \<open>i\<close> and U+0307) and U+212A (to \<open>k\<close>) have a lower case that holds an ASCII
  character. Every other character outside ASCII is left as it is: its lower case lies
  outside ASCII too, so a test for an ASCII needle in \<open>s.lower()\<close> comes out the same.
\<close>

definition lower_char :: "int \<Rightarrow> ustring" where
  "lower_char c =
     (if 65 \<le> c \<and> c \<le> 90 then [c + 32]
      else if c = 0x130 then [0x69, 0x307]
      else if c = 0x212A then [0x6B]
      else [c])"

definition lower :: "ustring \<Rightarrow> ustring" where
  "lower s = concat (map lower_char s)"

section \<open>Documents\<close>

text \<open>
  \<open>langchain_core.documents.Document\<close>: the text and a metadata dict. The dict is an
  association list in insertion order, read with \<open>map_of\<close>.
\<close>

record document =
  page_content :: ustring
  metadata :: "(string \<times> pyval) list"

text \<open>\<open>doc.metadata.get(key, default)\<close>.\<close>

definition md_get :: "document \<Rightarrow> string \<Rightarrow> pyval \<Rightarrow> pyval" where
  "md_get doc key dflt = (case map_of (metadata doc) key of None \<Rightarrow> dflt | Some v \<Rightarrow> v)"

text \<open>
  \<open>doc.metadata[key] = v\<close>: an existing key keeps its place, a new key goes last.
\<close>

fun md_set :: "(string \<times> pyval) list \<Rightarrow> string \<Rightarrow> pyval \<Rightarrow> (string \<times> pyval) list" where
  "md_set [] key v = [(key, v)]"
| "md_set ((k, w) # md) key v = (if k = key then (key, v) # md else (k, w) # md_set md key v)"

section \<open>Book search: the two retrievers\<close>

text \<open>
  A row of \<open>DAUSACH\<close> as the full-text query selects it. What the database answers is an
  input of the model: \<open>Inl e\<close> when opening the connection or executing the statement
  raises, \<open>Inr rows\<close> otherwise.
\<close>

record book_row =
  ISBN :: pyval
  TENSACH :: pyval
  NOIDUNG :: pyval
  HINHANHPATH :: pyval

definition row_to_doc :: "book_row \<Rightarrow> document" where
  "row_to_doc row =
     (let clean_isbn = strip (py_str (ISBN row))
      in \<lparr> page_content = py_str (TENSACH row) @ [10] @ py_str (NOIDUNG row),
           metadata = [(''isbn'', PStr clean_isbn),
                       (''tensach'', TENSACH row),
                       (''hinhanh'', HINHANHPATH row)] \<rparr>)"

text \<open>
  \<open>SQLFullTextRetriever._get_relevant_documents\<close>: an exception of the database is caught
  and answered with the empty list.
\<close>

definition sql_get_relevant_documents :: "error + book_row list \<Rightarrow> error + document list" where
  "sql_get_relevant_documents db_answer =
     (case db_answer of
        Inl e \<Rightarrow> Inr []
      | Inr results \<Rightarrow> Inr (map row_to_doc results))"

text \<open>
  \<open>LoggingChromaRetriever._get_relevant_documents\<close>: \<open>similarity_search\<close> is called outside
  any \<open>try\<close>, so its exception leaves the method; otherwise every document's \<open>isbn\<close> is
  replaced by its \<open>str\<close>.
\<close>

definition normalize_isbn :: "document \<Rightarrow> document" where
  "normalize_isbn doc =
     (let raw_isbn = md_get doc ''isbn'' (PStr [])
      in doc\<lparr> metadata := md_set (metadata doc) ''isbn'' (PStr (py_str raw_isbn)) \<rparr>)"

definition chroma_get_relevant_documents :: "error + document list \<Rightarrow> error + document list" where
  "chroma_get_relevant_documents store_answer =
     (case store_answer of
        Inl e \<Rightarrow> Inl e
      | Inr docs \<Rightarrow> Inr (map normalize_isbn docs))"

section \<open>Book search: rank fusion and the ISBN filter\<close>

text \<open>
  Modelled from the spec: \<open>EnsembleRetriever.invoke\<close>, which \<open>UniqueEnsembleRetriever\<close>
  inherits and calls as \<open>super().invoke\<close>, is library code outside the repository. It
  asks the retrievers in the order \<open>[bm25, chroma]\<close> and hands the two lists to the
  weighted reciprocal rank fusion; it has no handler of its own, so an exception of a
  retriever leaves it. The fusion is a parameter \<open>fuse\<close>: the results below hold for
  every fusion.
\<close>

definition ensemble_invoke ::
  "(document list list \<Rightarrow> document list) \<Rightarrow> error + document list \<Rightarrow> error + document list
     \<Rightarrow> error + document list" where
  "ensemble_invoke fuse bm25 chroma =
     (case bm25 of
        Inl e \<Rightarrow> Inl e
      | Inr lexical \<Rightarrow>
          (case chroma of
             Inl e \<Rightarrow> Inl e
           | Inr semantic \<Rightarrow> Inr (fuse [lexical, semantic])))"

text \<open>
  Modelled from the spec: \<open>EnsembleRetriever.weighted_reciprocal_rank\<close>, the fusion that
  \<open>super().invoke\<close> applies, is library code outside the repository. With the weights
  \<open>[0.5, 0.5]\<close> of \<open>_get_retrieval_chain\<close> and the constant 60, a document at rank
  \<open>r\<close> (from 1) of a list adds \<open>weight / (r + 60)\<close> to the score of its \<open>page_content\<close>;
  of the documents of both lists, lexical first, the first of each \<open>page_content\<close> is
  kept; they are sorted by score, highest first (equal scores keep their order).
  Scores are rationals here.
\<close>

definition rrf_score :: "document list list \<Rightarrow> rat list \<Rightarrow> ustring \<Rightarrow> rat" where
  "rrf_score doc_lists weights key =
     sum_list (map (\<lambda>(doc_list, weight).
        sum_list (map (\<lambda>(rank, doc).
           if page_content doc = key then weight / of_nat (rank + 60) else 0)
           (zip [1 ..< Suc (length doc_list)] doc_list)))
        (zip doc_lists weights))"

fun unique_by_key :: "ustring set \<Rightarrow> document list \<Rightarrow> document list" where
  "unique_by_key seen [] = []"
| "unique_by_key seen (doc # docs) =
     (if page_content doc \<in> seen then unique_by_key seen docs
      else doc # unique_by_key (insert (page_content doc) seen) docs)"

definition weighted_reciprocal_rank :: "document list list \<Rightarrow> document list" where
  "weighted_reciprocal_rank doc_lists =
     sort_key (\<lambda>doc. - rrf_score doc_lists [1 / 2, 1 / 2] (page_content doc))
       (unique_by_key {} (concat doc_lists))"

text \<open>The key of the hard filter: \<open>str(doc.metadata.get("isbn", "")).strip()\<close>.\<close>

definition isbn_key :: "document \<Rightarrow> ustring" where
  "isbn_key doc = strip (py_str (md_get doc ''isbn'' (PStr [])))"

text \<open>
  The loop of \<open>UniqueEnsembleRetriever.invoke\<close> over the fused documents, on the state
  \<open>(unique_docs, seen_isbns)\<close>.
\<close>

fun hard_filter ::
  "document list \<Rightarrow> document list \<times> ustring set \<Rightarrow> document list \<times> ustring set" where
  "hard_filter [] st = st"
| "hard_filter (doc # docs) (unique_docs, seen_isbns) =
     (let isbn = isbn_key doc
      in if isbn \<noteq> [] \<and> isbn \<notin> seen_isbns
         then hard_filter docs (unique_docs @ [doc], insert isbn seen_isbns)
         else hard_filter docs (unique_docs, seen_isbns))"

definition unique_ensemble_invoke ::
  "(document list list \<Rightarrow> document list) \<Rightarrow> error + document list \<Rightarrow> error + document list
     \<Rightarrow> error + document list" where
  "unique_ensemble_invoke fuse bm25 chroma =
     (case ensemble_invoke fuse bm25 chroma of
        Inl e \<Rightarrow> Inl e
      | Inr docs \<Rightarrow> Inr (fst (hard_filter docs ([], {}))))"

section \<open>Book search: the reranker\<close>

text \<open>
  The scoring model is external: \<open>score pairs\<close> is what \<open>model.score\<close> answers for the
  list of \<open>(query, text)\<close> pairs, \<open>Inl e\<close> when it raises. Every call made to it is
  appended to a log, so that a result can say which candidates reached the model.
\<close>

type_synonym score_log = "(ustring \<times> ustring) list list"

text \<open>
  Modelled from the spec: \<open>CrossEncoderReranker.compress_documents\<close>, which the
  repository's reranker inherits and calls as \<open>super().compress_documents\<close>, is library
  code outside the repository. It scores the pairs of all documents in one call of
  \<open>model.score\<close>, orders the documents by score, highest first (equal scores keep the
  incoming order), and returns the first \<open>top_n\<close>. It has no handler, so an exception
  of the model leaves it. Scores are rationals here.
\<close>

definition cross_encoder_compress ::
  "((ustring \<times> ustring) list \<Rightarrow> error + rat list) \<Rightarrow> nat \<Rightarrow> document list \<Rightarrow> ustring \<Rightarrow> score_log
     \<Rightarrow> (error + document list) \<times> score_log" where
  "cross_encoder_compress score top_n documents query calls =
     (let pairs = map (\<lambda>doc. (query, page_content doc)) documents
      in case score pairs of
           Inl e \<Rightarrow> (Inl e, calls @ [pairs])
         | Inr scores \<Rightarrow>
             (Inr (map fst (take top_n (sort_key (\<lambda>(doc, s). - s) (zip documents scores)))),
              calls @ [pairs]))"

text \<open>
  \<open>LoggingCrossEncoderReranker.compress_documents\<close>: the empty list is answered at once,
  any other list goes to the inherited method whole, and what that returns (or raises)
  is the result. The logging after the call changes nothing.
\<close>

definition compress_documents ::
  "(document list \<Rightarrow> ustring \<Rightarrow> score_log \<Rightarrow> (error + document list) \<times> score_log)
     \<Rightarrow> document list \<Rightarrow> ustring \<Rightarrow> score_log \<Rightarrow> (error + document list) \<times> score_log" where
  "compress_documents super_compress documents query calls =
     (if documents = [] then (Inr [], calls) else super_compress documents query calls)"

text \<open>
  \<open>_get_retrieval_chain\<close>: the compression retriever over the unique ensemble of
  \<open>[bm25, chroma]\<close>, with the reranker at \<open>top_n = 5\<close>. The compression retriever
  (library code) calls the compressor only when the base retriever returned documents,
  and catches nothing. What the database and the vector store answer to the two
  queries (each asked for at most \<open>top_k = 20\<close> results) are inputs.
\<close>

definition retrieval_chain ::
  "(document list list \<Rightarrow> document list) \<Rightarrow> ((ustring \<times> ustring) list \<Rightarrow> error + rat list)
     \<Rightarrow> error + book_row list \<Rightarrow> error + document list \<Rightarrow> ustring \<Rightarrow> score_log
     \<Rightarrow> (error + document list) \<times> score_log" where
  "retrieval_chain fuse score db_answer store_answer query calls =
     (case unique_ensemble_invoke fuse
             (sql_get_relevant_documents db_answer)
             (chroma_get_relevant_documents store_answer) of
        Inl e \<Rightarrow> (Inl e, calls)
      | Inr docs \<Rightarrow>
          if docs = [] then (Inr [], calls)
          else compress_documents (cross_encoder_compress score 5) docs query calls)"

section \<open>Book search: the tool's input\<close>

text \<open>
  The tool takes \<open>Union[str, dict]\<close>; a dict, and what \<open>json.loads\<close> returns, hold JSON
  values (numbers are integers here).
\<close>

datatype jval =
  JNull | JBool bool | JNum int | JStr ustring | JList "jval list" | JObj "(string \<times> jval) list"

datatype tool_input = QStr ustring | QDict "(string \<times> jval) list"

text \<open>Python's truth value of an object.\<close>

fun truthy :: "jval \<Rightarrow> bool" where
  "truthy JNull = False"
| "truthy (JBool b) = b"
| "truthy (JNum n) = (n \<noteq> 0)"
| "truthy (JStr s) = (s \<noteq> [])"
| "truthy (JList xs) = (xs \<noteq> [])"
| "truthy (JObj kvs) = (kvs \<noteq> [])"

text \<open>\<open>list(d.values())[0]\<close>.\<close>

definition first_value :: "(string \<times> jval) list \<Rightarrow> error + jval" where
  "first_value d = (case d of [] \<Rightarrow> Inl IndexError | (k, v) # _ \<Rightarrow> Inr v)"

text \<open>\<open>d.get("query") or list(d.values())[0]\<close>.\<close>

definition query_or_first :: "(string \<times> jval) list \<Rightarrow> error + jval" where
  "query_or_first d =
     (case map_of d ''query'' of
        None \<Rightarrow> first_value d
      | Some v \<Rightarrow> if truthy v then Inr v else first_value d)"

definition missing_query_message :: ustring where
  "missing_query_message =
     ustr ''L'' @ [0x1ED7] @ ustr ''i: Kh'' @ [0xF4] @ ustr ''ng t'' @ [0xEC]
     @ ustr ''m th'' @ [0x1EA5] @ ustr ''y t'' @ [0x1EEB] @ ustr '' kh'' @ [0xF3]
     @ ustr ''a t'' @ [0xEC] @ ustr ''m ki'' @ [0x1EBF] @ ustr ''m h'' @ [0x1EE3]
     @ ustr ''p l'' @ [0x1EC7] @ ustr ''.''"

text \<open>
  The first lines of \<open>book_search_tool\<close>, up to \<open>clean_query\<close>. The dict branch is outside
  any \<open>try\<close>; in the string branch every exception (of \<open>json.loads\<close>, of \<open>.get\<close> on a value
  that is no dict, of the index \<open>[0]\<close>) is swallowed and \<open>clean_query\<close> stays the string.
  \<open>json_loads\<close> is the parser, a parameter.
\<close>

definition clean_query_of :: "(ustring \<Rightarrow> error + jval) \<Rightarrow> tool_input \<Rightarrow> error + jval" where
  "clean_query_of json_loads query =
     (case query of
        QDict d \<Rightarrow> query_or_first d
      | QStr s \<Rightarrow>
          if prefix (ustr ''{'') (strip s) then
            (case json_loads s of
               Inl e \<Rightarrow> Inr (JStr s)
             | Inr (JObj d) \<Rightarrow> (case query_or_first d of Inl e \<Rightarrow> Inr (JStr s) | Inr v \<Rightarrow> Inr v)
             | Inr _ \<Rightarrow> Inr (JStr s))
          else Inr (JStr s))"

text \<open>
  \<open>book_search_tool\<close>: \<open>search\<close> stands for the rest of the body from
  \<open>str(clean_query).strip()\<close> on (building the retrieval chain, invoking it, reading the
  book details from the database and formatting the answer).
\<close>

definition book_search_tool ::
  "(ustring \<Rightarrow> error + jval) \<Rightarrow> (jval \<Rightarrow> error + ustring) \<Rightarrow> tool_input \<Rightarrow> error + ustring" where
  "book_search_tool json_loads search query =
     (case clean_query_of json_loads query of
        Inl e \<Rightarrow> Inl e
      | Inr clean_query \<Rightarrow>
          if \<not> truthy clean_query then Inr missing_query_message else search clean_query)"

section \<open>Document reading: same-page expansion\<close>

text \<open>
  A chunk of a PDF: its text, the \<open>page\<close> entry of its metadata (\<open>None\<close> when the key is
  absent; the ingestion writes the page number as an integer) and the rest of the
  metadata.
\<close>

record 'm pdf_doc =
  pdf_content :: ustring
  pdf_page :: "int option"
  pdf_meta :: 'm

text \<open>\<open>doc.metadata.get("page", dflt)\<close>.\<close>

definition get_page :: "'m pdf_doc \<Rightarrow> int \<Rightarrow> int" where
  "get_page doc dflt = (case pdf_page doc of None \<Rightarrow> dflt | Some p \<Rightarrow> p)"

text \<open>
  The collection is external: \<open>coll_get page\<close> is what
  \<open>collection.get(where={"page": page}, ...)\<close> answers, the rows in the order of the
  answer, or \<open>Inl e\<close> when the call raises. The loops of \<open>_expand_same_page\<close> run on the
  state \<open>(expanded_docs, seen_contents)\<close>.
\<close>

definition add_row :: "'m pdf_doc list \<times> ustring set \<Rightarrow> 'm pdf_doc \<Rightarrow> 'm pdf_doc list \<times> ustring set" where
  "add_row st row =
     (case st of (expanded_docs, seen_contents) \<Rightarrow>
        if pdf_content row \<notin> seen_contents
        then (expanded_docs @ [row], insert (pdf_content row) seen_contents)
        else (expanded_docs, seen_contents))"

definition fetch_page ::
  "(int \<Rightarrow> error + 'm pdf_doc list) \<Rightarrow> 'm pdf_doc list \<times> ustring set \<Rightarrow> int
     \<Rightarrow> 'm pdf_doc list \<times> ustring set" where
  "fetch_page coll_get st page =
     (case coll_get page of
        Inl e \<Rightarrow> st
      | Inr page_results \<Rightarrow> foldl add_row st page_results)"

text \<open>The documents collected before the final sort.\<close>

definition fetched_docs :: "(int \<Rightarrow> error + 'm pdf_doc list) \<Rightarrow> 'm pdf_doc list \<Rightarrow> 'm pdf_doc list" where
  "fetched_docs coll_get chunks =
     (let pages_to_fetch = set (map (\<lambda>doc. get_page doc 1) chunks)
      in fst (foldl (fetch_page coll_get) ([], {}) (sorted_list_of_set pages_to_fetch)))"

text \<open>The key of the final sort: \<open>(d.metadata.get("page", 0), d.page_content[:50])\<close>.\<close>

definition sort_key_of :: "'m pdf_doc \<Rightarrow> int \<times> ustring" where
  "sort_key_of d = (get_page d 0, take 50 (pdf_content d))"

text \<open>\<open>ReferenceRetrievalSystem._expand_same_page\<close>; \<open>list.sort\<close> is stable, as \<open>sort_key\<close> is.\<close>

definition expand_same_page ::
  "(int \<Rightarrow> error + 'm pdf_doc list) \<Rightarrow> 'm pdf_doc list \<Rightarrow> 'm pdf_doc list" where
  "expand_same_page coll_get chunks = sort_key sort_key_of (fetched_docs coll_get chunks)"

section \<open>Document reading: bulk indexing\<close>

text \<open>
  The vector store is external: an \<open>upsert\<close> either succeeds or raises an exception with
  the message \<open>str(e)\<close>. \<open>upsert batch_idx k\<close> is the outcome of the \<open>k\<close>-th call (from 0)
  that the batch \<open>batch_idx\<close> makes.
\<close>

datatype upsert_outcome = Upserted | UpsertRaised ustring

definition max_retries :: nat where
  "max_retries = 3"

definition ok_message :: "nat \<Rightarrow> ustring" where
  "ok_message current_batch =
     [0x2705] @ ustr '' Batch '' @ str_nat current_batch @ ustr '' OK''"

definition failed_message :: "nat \<Rightarrow> ustring" where
  "failed_message current_batch =
     [0x274C] @ ustr '' Batch '' @ str_nat current_batch
     @ ustr '' FAILED after '' @ str_nat max_retries @ ustr '' retries''"

definition error_message :: "nat \<Rightarrow> ustring \<Rightarrow> ustring" where
  "error_message current_batch e =
     [0x274C] @ ustr '' Batch '' @ str_nat current_batch @ ustr '' ERROR: '' @ e"

text \<open>The test on \<open>error_msg = str(e).lower()\<close>.\<close>

definition is_rate_limit :: "ustring \<Rightarrow> bool" where
  "is_rate_limit e =
     (let error_msg = lower e
      in py_in (ustr ''429'') error_msg \<or> py_in (ustr ''quota'') error_msg
         \<or> py_in (ustr ''limit'') error_msg)"

text \<open>
  The \<open>while retry_count <= max_retries\<close> loop of \<open>process_batch\<close>. The \<open>k\<close>-th call of
  \<open>upsert\<close> happens at \<open>retry_count = k\<close>. \<open>None\<close> is Python's \<open>None\<close>, returned when the
  loop is left by its condition. The sleep between two attempts has no result.
\<close>

function retry_loop :: "(nat \<Rightarrow> upsert_outcome) \<Rightarrow> nat \<Rightarrow> nat \<Rightarrow> ustring option" where
  "retry_loop upsert current_batch retry_count =
     (if retry_count \<le> max_retries then
        (case upsert retry_count of
           Upserted \<Rightarrow> Some (ok_message current_batch)
         | UpsertRaised e \<Rightarrow>
             if is_rate_limit e then
               (if retry_count + 1 > max_retries then Some (failed_message current_batch)
                else retry_loop upsert current_batch (retry_count + 1))
             else Some (error_message current_batch e))
      else None)"
  by pat_completeness auto
termination
  by (relation "measure (\<lambda>(upsert, current_batch, retry_count). Suc max_retries - retry_count)") auto

declare retry_loop.simps [simp del]

definition process_batch :: "(nat \<Rightarrow> nat \<Rightarrow> upsert_outcome) \<Rightarrow> nat \<Rightarrow> ustring option" where
  "process_batch upsert batch_idx = retry_loop (upsert batch_idx) (batch_idx + 1) 0"

text \<open>
  The body of the \<open>as_completed\<close> loop: \<open>"OK" in result\<close> decides whether the batch counts
  as failed; on \<open>None\<close> the test raises a \<open>TypeError\<close>, which the loop catches and records.
\<close>

definition none_not_iterable :: ustring where
  "none_not_iterable =
     ustr ''argument of type '' @ [0x27] @ ustr ''NoneType'' @ [0x27] @ ustr '' is not iterable''"

definition collect_result :: "ustring list \<Rightarrow> ustring option \<Rightarrow> ustring list" where
  "collect_result failed_results result =
     (case result of
        None \<Rightarrow> failed_results @ [none_not_iterable]
      | Some r \<Rightarrow> if py_in (ustr ''OK'') r then failed_results else failed_results @ [r])"

text \<open>\<open>sep.join(xs)\<close>.\<close>

fun join :: "ustring \<Rightarrow> ustring list \<Rightarrow> ustring" where
  "join sep [] = []"
| "join sep [x] = x"
| "join sep (x # y # ys) = x @ sep @ join sep (y # ys)"

text \<open>The slices \<open>documents[i : i + batch_size]\<close> for \<open>i\<close> in \<open>range(0, total, batch_size)\<close>.\<close>

definition batches_of :: "'a list \<Rightarrow> int \<Rightarrow> 'a list list" where
  "batches_of documents batch_size =
     (if batch_size < 0 then []
      else map (\<lambda>k. take (nat batch_size) (drop (k * nat batch_size) documents))
             [0 ..< (length documents + nat batch_size - 1) div nat batch_size])"

text \<open>
  \<open>ReferenceRetrievalSystem.index_documents\<close>. \<open>order\<close> is the order in which the futures
  complete: the indices \<open>0 ..< length batches\<close>, each once. \<open>count_answer\<close> is what
  \<open>collection.count()\<close> answers for the closing log line. \<open>Inr ()\<close> is the normal return.
\<close>

definition index_documents ::
  "(nat \<Rightarrow> nat \<Rightarrow> upsert_outcome) \<Rightarrow> nat list \<Rightarrow> error + nat \<Rightarrow> 'a list \<Rightarrow> int \<Rightarrow> error + unit" where
  "index_documents upsert order count_answer documents batch_size =
     (if batch_size = 0 then Inl ZeroDivisionError
      else
        let batches = batches_of documents batch_size;
            results = map (process_batch upsert) order;
            failed_results = foldl collect_result [] results
        in if failed_results \<noteq> [] then
             Inl (Raised (ustr ''Indexing incomplete. '' @ str_nat (length failed_results)
                          @ ustr '' batches failed. Details: ''
                          @ join (ustr ''; '') (take 3 failed_results)))
           else (case count_answer of Inl e \<Rightarrow> Inl e | Inr n \<Rightarrow> Inr ()))"

section \<open>Document reading: the retriever cache\<close>

text \<open>
  \<open>PDF_RETRIEVAL_CACHE\<close> is a module-level dict from the path to the retriever. Besides
  it the state keeps a list of the index builds made: the path, and whether the build
  ended without an exception. \<open>build pdf_path k\<close> is the outcome of lines 29 to 35
  (\<open>process_pdf\<close>, the constructor, \<open>index_documents\<close>) when \<open>k\<close> builds were made before.
\<close>

record 'r cache_state =
  PDF_RETRIEVAL_CACHE :: "string \<rightharpoonup> 'r"
  builds :: "(string \<times> bool) list"

definition get_or_create_retriever ::
  "(string \<Rightarrow> nat \<Rightarrow> error + 'r) \<Rightarrow> string \<Rightarrow> 'r cache_state \<Rightarrow> (error + 'r) \<times> 'r cache_state" where
  "get_or_create_retriever build pdf_path st =
     (case PDF_RETRIEVAL_CACHE st pdf_path of
        Some retriever_system \<Rightarrow> (Inr retriever_system, st)
      | None \<Rightarrow>
          (case build pdf_path (length (builds st)) of
             Inl e \<Rightarrow> (Inl e, st\<lparr> builds := builds st @ [(pdf_path, False)] \<rparr>)
           | Inr retriever_system \<Rightarrow>
               (Inr retriever_system,
                st\<lparr> PDF_RETRIEVAL_CACHE := (PDF_RETRIEVAL_CACHE st)(pdf_path \<mapsto> retriever_system),
                    builds := builds st @ [(pdf_path, True)] \<rparr>)))"


text \<open>
  Calls made by several threads. The function takes no lock, so a thread can be
  suspended between its statements: after the test \<open>pdf_path in PDF_RETRIEVAL_CACHE\<close>
  (line 22), after the build (lines 29 to 35), and after the store (line 38). A thread is
  its path and the place it has reached.
\<close>

datatype 'r place = AtTest | AtBuild | AtStore 'r | Returned "error + 'r"

definition thread_step ::
  "(string \<Rightarrow> nat \<Rightarrow> error + 'r) \<Rightarrow> nat \<Rightarrow> (string \<times> 'r place) list \<times> 'r cache_state
     \<Rightarrow> (string \<times> 'r place) list \<times> 'r cache_state" where
  "thread_step build i cfg =
     (case cfg of (threads, st) \<Rightarrow>
        if i < length threads then
          (case threads ! i of (pdf_path, pl) \<Rightarrow>
             (case pl of
                AtTest \<Rightarrow>
                  (case PDF_RETRIEVAL_CACHE st pdf_path of
                     Some r \<Rightarrow> (threads[i := (pdf_path, Returned (Inr r))], st)
                   | None \<Rightarrow> (threads[i := (pdf_path, AtBuild)], st))
              | AtBuild \<Rightarrow>
                  (case build pdf_path (length (builds st)) of
                     Inl e \<Rightarrow>
                       (threads[i := (pdf_path, Returned (Inl e))],
                        st\<lparr> builds := builds st @ [(pdf_path, False)] \<rparr>)
                   | Inr r \<Rightarrow>
                       (threads[i := (pdf_path, AtStore r)],
                        st\<lparr> builds := builds st @ [(pdf_path, True)] \<rparr>))
              | AtStore r \<Rightarrow>
                  (threads[i := (pdf_path, Returned (Inr r))],
                   st\<lparr> PDF_RETRIEVAL_CACHE := (PDF_RETRIEVAL_CACHE st)(pdf_path \<mapsto> r) \<rparr>)
              | Returned res \<Rightarrow> (threads, st)))
        else (threads, st))"

text \<open>A schedule names the thread that makes the next step.\<close>

definition run_schedule ::
  "(string \<Rightarrow> nat \<Rightarrow> error + 'r) \<Rightarrow> nat list \<Rightarrow> (string \<times> 'r place) list \<times> 'r cache_state
     \<Rightarrow> (string \<times> 'r place) list \<times> 'r cache_state" where
  "run_schedule build schedule cfg = foldl (\<lambda>cfg i. thread_step build i cfg) cfg schedule"


section \<open>Example inputs\<close>

text \<open>Concrete documents and services, used where a result is evaluated.\<close>

definition book :: "string \<Rightarrow> string \<Rightarrow> document" where
  "book isbn title =
     \<lparr> page_content = ustr title,
       metadata = [(''isbn'', PStr (ustr isbn)), (''tensach'', PStr (ustr title))] \<rparr>"

definition failing_score :: "(ustring \<times> ustring) list \<Rightarrow> error + rat list" where
  "failing_score pairs = Inl (Raised (ustr ''scoring unavailable''))"

definition flat_score :: "(ustring \<times> ustring) list \<Rightarrow> error + rat list" where
  "flat_score pairs = Inr (map (\<lambda>p. 0) pairs)"

text \<open>Rows of the database with different ISBNs, titles and contents.\<close>

definition numbered_row :: "nat \<Rightarrow> book_row" where
  "numbered_row n =
     \<lparr> ISBN = PInt (int n), TENSACH = PStr (ustr ''T'' @ str_nat n),
       NOIDUNG = PStr (ustr ''N'' @ str_nat n), HINHANHPATH = PNone \<rparr>"

definition chunk :: "string \<Rightarrow> int \<Rightarrow> unit pdf_doc" where
  "chunk text p = \<lparr> pdf_content = ustr text, pdf_page = Some p, pdf_meta = () \<rparr>"

text \<open>
  A small collection: two chunks on page 1, three rows on page 2 (one of them twice), a
  failing request for page 3, nothing elsewhere.
\<close>

definition shelf :: "int \<Rightarrow> error + unit pdf_doc list" where
  "shelf page =
     (if page = 1 then Inr [chunk ''b'' 1, chunk ''a'' 1]
      else if page = 2 then Inr [chunk ''a'' 2, chunk ''c'' 2, chunk ''c'' 2]
      else if page = 3 then Inl (Raised (ustr ''timeout''))
      else Inr [])"

text \<open>A vector store that rejects every upsert: for a bad token, or for the rate limit.\<close>

definition bad_token_upsert :: "nat \<Rightarrow> nat \<Rightarrow> upsert_outcome" where
  "bad_token_upsert batch_idx k = UpsertRaised (ustr ''Invalid TOKEN'')"

definition rate_limited_upsert :: "nat \<Rightarrow> nat \<Rightarrow> upsert_outcome" where
  "rate_limited_upsert batch_idx k = UpsertRaised (ustr ''429 Too Many Requests'')"




section \<open>The ISBN filter of the ensemble retriever\<close>

lemma hard_filter_subseq:
  "\<exists>ys. fst (hard_filter docs (acc, seen)) = acc @ ys \<and> subseq ys docs"
proof (induction docs arbitrary: acc seen)
  case Nil
  then show ?case by simp
next
  case (Cons doc docs)
  show ?case
  proof (cases "isbn_key doc \<noteq> [] \<and> isbn_key doc \<notin> seen")
    case True
    obtain ys where "fst (hard_filter docs (acc @ [doc], insert (isbn_key doc) seen)) = (acc @ [doc]) @ ys" "subseq ys docs"
      using Cons.IH by blast
    then have "fst (hard_filter (doc # docs) (acc, seen)) = acc @ (doc # ys) \<and> subseq (doc # ys) (doc # docs)"
      using True by (simp add: Let_def)
    then show ?thesis by blast
  next
    case False
    obtain ys where "fst (hard_filter docs (acc, seen)) = acc @ ys" "subseq ys docs"
      using Cons.IH by blast
    then have "fst (hard_filter (doc # docs) (acc, seen)) = acc @ ys \<and> subseq ys (doc # docs)"
      using False by (auto simp: Let_def)
    then show ?thesis by blast
  qed
qed

lemma hard_filter_keys:
  "isbn_key ` set (fst (hard_filter docs (acc, seen))) =
     isbn_key ` set acc \<union> ({k \<in> isbn_key ` set docs. k \<noteq> []} - seen)"
proof (induction docs arbitrary: acc seen)
  case Nil
  then show ?case by simp
next
  case (Cons doc docs)
  let ?K = "{k \<in> isbn_key ` set docs. k \<noteq> []}"
  show ?case
  proof (cases "isbn_key doc \<noteq> [] \<and> isbn_key doc \<notin> seen")
    case True
    then have "fst (hard_filter (doc # docs) (acc, seen)) = fst (hard_filter docs (acc @ [doc], insert (isbn_key doc) seen))"
      by (simp add: Let_def)
    then have a: "isbn_key ` set (fst (hard_filter (doc # docs) (acc, seen)))
        = isbn_key ` set (acc @ [doc]) \<union> (?K - insert (isbn_key doc) seen)"
      using Cons.IH [of "acc @ [doc]" "insert (isbn_key doc) seen"] by simp
    have b: "{k \<in> isbn_key ` set (doc # docs). k \<noteq> []} = insert (isbn_key doc) ?K"
      using True by auto
    have c: "isbn_key ` set (acc @ [doc]) = insert (isbn_key doc) (isbn_key ` set acc)"
      by simp
    have "insert (isbn_key doc) (isbn_key ` set acc) \<union> (?K - insert (isbn_key doc) seen)
        = isbn_key ` set acc \<union> (insert (isbn_key doc) ?K - seen)"
      using True by auto
    then show ?thesis unfolding a b c .
  next
    case False
    then have "fst (hard_filter (doc # docs) (acc, seen)) = fst (hard_filter docs (acc, seen))"
      by (auto simp: Let_def)
    then have "isbn_key ` set (fst (hard_filter (doc # docs) (acc, seen)))
        = isbn_key ` set acc \<union> (?K - seen)"
      using Cons.IH [of acc seen] by simp
    moreover have "{k \<in> isbn_key ` set (doc # docs). k \<noteq> []} - seen = ?K - seen"
      using False by auto
    ultimately show ?thesis by simp
  qed
qed

lemma hard_filter_distinct:
  "distinct (map isbn_key acc) \<Longrightarrow> isbn_key ` set acc \<subseteq> seen
   \<Longrightarrow> distinct (map isbn_key (fst (hard_filter docs (acc, seen))))"
proof (induction docs arbitrary: acc seen)
  case Nil
  then show ?case by simp
next
  case (Cons doc docs)
  show ?case
  proof (cases "isbn_key doc \<noteq> [] \<and> isbn_key doc \<notin> seen")
    case True
    have "distinct (map isbn_key (acc @ [doc]))"
      using Cons.prems True by auto
    moreover have "isbn_key ` set (acc @ [doc]) \<subseteq> insert (isbn_key doc) seen"
      using Cons.prems by auto
    ultimately show ?thesis
      using Cons.IH [of "acc @ [doc]" "insert (isbn_key doc) seen"] True by (simp add: Let_def)
  next
    case False
    then show ?thesis using Cons.IH [of acc seen] Cons.prems by (auto simp: Let_def)
  qed
qed

lemma hard_filter_first:
  "d \<in> set (fst (hard_filter docs (acc, seen))) \<Longrightarrow>
     d \<in> set acc \<or> (isbn_key d \<noteq> [] \<and> isbn_key d \<notin> seen \<and> find (\<lambda>x. isbn_key x = isbn_key d) docs = Some d)"
proof (induction docs arbitrary: acc seen)
  case Nil
  then show ?case by simp
next
  case (Cons doc docs)
  show ?case
  proof (cases "isbn_key doc \<noteq> [] \<and> isbn_key doc \<notin> seen")
    case True
    with Cons.prems have "d \<in> set (fst (hard_filter docs (acc @ [doc], insert (isbn_key doc) seen)))"
      by (simp add: Let_def)
    from Cons.IH [OF this] True show ?thesis by auto
  next
    case False
    with Cons.prems have "d \<in> set (fst (hard_filter docs (acc, seen)))"
      by (auto simp: Let_def)
    from Cons.IH [OF this] False show ?thesis by auto
  qed
qed

text \<open>
  The key strips the white space of Unicode: an ISBN followed by a no-break space
  has the key of the bare ISBN.
\<close>

lemma isbn_key_strips_no_break_space:
  "isbn_key (book ('' 222'' @ [CHR 0xA0]) ''B2'') = isbn_key (book ''222'' ''B'')"
  by code_simp

text \<open>
  C3. Whatever the two ranked lists and the fusion are, the documents that
  \<open>UniqueEnsembleRetriever.invoke\<close> returns have pairwise different ISBN keys; they are
  taken from the fused list in its order; every non-empty key of the fused list is
  represented; and the representative of a key is the first document of the fused list
  that carries it. The key of a document is \<open>str(isbn).strip()\<close>, the one the code
  compares.
\<close>

theorem unique_ensemble_no_duplicate_isbn:
  assumes "unique_ensemble_invoke fuse (Inr lexical) (Inr semantic) = Inr unique_docs"
  shows "distinct (map isbn_key unique_docs)
    \<and> subseq unique_docs (fuse [lexical, semantic])
    \<and> isbn_key ` set unique_docs = {k \<in> isbn_key ` set (fuse [lexical, semantic]). k \<noteq> []}
    \<and> map (\<lambda>d. find (\<lambda>x. isbn_key x = isbn_key d) (fuse [lexical, semantic])) unique_docs
        = map Some unique_docs"
proof -
  let ?docs = "fuse [lexical, semantic]"
  have out: "unique_docs = fst (hard_filter ?docs ([], {}))"
    using assms by (simp add: unique_ensemble_invoke_def ensemble_invoke_def)
  have d: "distinct (map isbn_key unique_docs)"
    unfolding out by (rule hard_filter_distinct) simp_all
  have s: "subseq unique_docs ?docs"
    using hard_filter_subseq [of ?docs "[]" "{}"] unfolding out by simp
  have k: "isbn_key ` set unique_docs = {k \<in> isbn_key ` set ?docs. k \<noteq> []}"
    unfolding out hard_filter_keys by simp
  have f: "map (\<lambda>d. find (\<lambda>x. isbn_key x = isbn_key d) ?docs) unique_docs = map Some unique_docs"
  proof (rule map_cong [OF refl])
    fix d assume "d \<in> set unique_docs"
    then show "find (\<lambda>x. isbn_key x = isbn_key d) ?docs = Some d"
      using hard_filter_first [of d ?docs "[]" "{}"] unfolding out by simp
  qed
  from d s k f show ?thesis by blast
qed

theorem unique_ensemble_no_duplicate_isbn_witness:
  "distinct (map isbn_key [book ''111'' ''A'', book ('' 222'' @ [CHR 0xA0]) ''B2'', book ''333'' ''C''])
   \<and> subseq [book ''111'' ''A'', book ('' 222'' @ [CHR 0xA0]) ''B2'', book ''333'' ''C'']
        (weighted_reciprocal_rank [[book ''111'' ''A'', book ''222'' ''B''],
           [book ('' 222'' @ [CHR 0xA0]) ''B2'', book ''333'' ''C'', book '''' ''D'']])
   \<and> isbn_key ` set [book ''111'' ''A'', book ('' 222'' @ [CHR 0xA0]) ''B2'', book ''333'' ''C'']
       = {k \<in> isbn_key ` set (weighted_reciprocal_rank [[book ''111'' ''A'', book ''222'' ''B''],
           [book ('' 222'' @ [CHR 0xA0]) ''B2'', book ''333'' ''C'', book '''' ''D'']]). k \<noteq> []}
   \<and> map (\<lambda>d. find (\<lambda>x. isbn_key x = isbn_key d)
               (weighted_reciprocal_rank [[book ''111'' ''A'', book ''222'' ''B''],
                  [book ('' 222'' @ [CHR 0xA0]) ''B2'', book ''333'' ''C'', book '''' ''D'']]))
         [book ''111'' ''A'', book ('' 222'' @ [CHR 0xA0]) ''B2'', book ''333'' ''C'']
       = map Some [book ''111'' ''A'', book ('' 222'' @ [CHR 0xA0]) ''B2'', book ''333'' ''C'']"
proof -
  have run: "unique_ensemble_invoke weighted_reciprocal_rank
        (Inr [book ''111'' ''A'', book ''222'' ''B''])
        (Inr [book ('' 222'' @ [CHR 0xA0]) ''B2'', book ''333'' ''C'', book '''' ''D''])
      = Inr [book ''111'' ''A'', book ('' 222'' @ [CHR 0xA0]) ''B2'', book ''333'' ''C'']"
    by code_simp
  from unique_ensemble_no_duplicate_isbn [OF run] show ?thesis .
qed

section \<open>Failure of one source in the retrieval chain\<close>

text \<open>
  The full-text retriever absorbs a failure of the database: the chain goes on as if the
  database had answered with no rows.
\<close>

lemma retrieval_chain_lexical_failure:
  "retrieval_chain fuse score (Inl e) (Inr docs) query calls
     = retrieval_chain fuse score (Inr []) (Inr docs) query calls"
  by (simp add: retrieval_chain_def sql_get_relevant_documents_def)

text \<open>
  C1. The semantic retriever does not: when \<open>similarity_search\<close> raises \<open>e\<close> while the
  database answers with rows, the retrieval chain raises \<open>e\<close>. No result is built from
  the lexical rows, and the scoring model is not called.
\<close>

theorem retrieval_chain_semantic_failure:
  "retrieval_chain fuse score (Inr results) (Inl e) query calls = (Inl e, calls)"
  by (simp add: retrieval_chain_def unique_ensemble_invoke_def ensemble_invoke_def
      sql_get_relevant_documents_def chroma_get_relevant_documents_def)

section \<open>What reaches the scoring model\<close>

text \<open>
  Where the results of the two sources differ pairwise in content, the rank fusion
  keeps all of them; where they also differ pairwise in their non-empty ISBN keys, the
  ISBN filter keeps all of them, and the scoring model is called once with as many
  pairs as the two sources returned.
\<close>

lemma unique_by_key_distinct:
  "distinct (map page_content docs) \<Longrightarrow> seen \<inter> page_content ` set docs = {}
     \<Longrightarrow> unique_by_key seen docs = docs"
proof (induction docs arbitrary: seen)
  case Nil
  show ?case by simp
next
  case (Cons doc docs)
  have "insert (page_content doc) seen \<inter> page_content ` set docs = {}"
    using Cons.prems by auto
  moreover have "distinct (map page_content docs)" using Cons.prems by simp
  ultimately have "unique_by_key (insert (page_content doc) seen) docs = docs"
    by (rule Cons.IH [rotated])
  moreover have "page_content doc \<notin> seen" using Cons.prems by auto
  ultimately show ?case by simp
qed

lemma distinct_map_sort_key:
  assumes "distinct (map f xs)"
  shows "distinct (map f (sort_key k xs))"
proof -
  from assms have "distinct xs" "inj_on f (set xs)" by (simp_all add: distinct_map)
  then have "distinct (sort_key k xs)" "inj_on f (set (sort_key k xs))" by simp_all
  then show ?thesis by (simp add: distinct_map)
qed

lemma weighted_reciprocal_rank_keeps_all:
  assumes "distinct (map page_content (concat doc_lists))"
  shows "\<exists>k :: document \<Rightarrow> rat. weighted_reciprocal_rank doc_lists = sort_key k (concat doc_lists)"
proof -
  have "unique_by_key {} (concat doc_lists) = concat doc_lists"
    using assms by (rule unique_by_key_distinct) simp
  then have "weighted_reciprocal_rank doc_lists
      = sort_key (\<lambda>doc. - rrf_score doc_lists [1 / 2, 1 / 2] (page_content doc)) (concat doc_lists)"
    by (simp add: weighted_reciprocal_rank_def)
  then show ?thesis by blast
qed

lemma hard_filter_keeps_all:
  "distinct (map isbn_key docs) \<Longrightarrow> [] \<notin> isbn_key ` set docs
     \<Longrightarrow> seen \<inter> isbn_key ` set docs = {}
     \<Longrightarrow> fst (hard_filter docs (acc, seen)) = acc @ docs"
proof (induction docs arbitrary: acc seen)
  case Nil
  show ?case by simp
next
  case (Cons doc docs)
  have k: "isbn_key doc \<noteq> [] \<and> isbn_key doc \<notin> seen"
    using Cons.prems by auto
  have "distinct (map isbn_key docs)" "[] \<notin> isbn_key ` set docs"
    "insert (isbn_key doc) seen \<inter> isbn_key ` set docs = {}"
    using Cons.prems by auto
  then have "fst (hard_filter docs (acc @ [doc], insert (isbn_key doc) seen)) = (acc @ [doc]) @ docs"
    by (rule Cons.IH)
  then show ?case using k by (simp add: Let_def)
qed

lemma retrieval_chain_scores_every_result:
  assumes c: "distinct (map page_content (map row_to_doc results @ map normalize_isbn docs))"
    and k: "distinct (map isbn_key (map row_to_doc results @ map normalize_isbn docs))"
    and e: "[] \<notin> isbn_key ` set (map row_to_doc results @ map normalize_isbn docs)"
    and n: "results \<noteq> [] \<or> docs \<noteq> []"
  shows "map length (snd (retrieval_chain weighted_reciprocal_rank score
            (Inr results) (Inr docs) query calls))
       = map length calls @ [length results + length docs]"
proof -
  let ?all = "map row_to_doc results @ map normalize_isbn docs"
  let ?fused = "weighted_reciprocal_rank [map row_to_doc results, map normalize_isbn docs]"
  from weighted_reciprocal_rank_keeps_all [of "[map row_to_doc results, map normalize_isbn docs]"] c
  obtain key :: "document \<Rightarrow> rat" where f: "?fused = sort_key key ?all" by auto
  have s: "set ?fused = set ?all" unfolding f by simp
  have dk: "distinct (map isbn_key ?fused)" unfolding f using k by (rule distinct_map_sort_key)
  have "fst (hard_filter ?fused ([], {})) = [] @ ?fused"
    by (rule hard_filter_keeps_all) (use dk e s in simp_all)
  then have u: "unique_ensemble_invoke weighted_reciprocal_rank
      (sql_get_relevant_documents (Inr results)) (chroma_get_relevant_documents (Inr docs)) = Inr ?fused"
    by (simp add: unique_ensemble_invoke_def ensemble_invoke_def sql_get_relevant_documents_def
        chroma_get_relevant_documents_def)
  have l: "length ?fused = length results + length docs"
    unfolding f by simp
  then have ne: "?fused \<noteq> []" using n by auto
  show ?thesis
    using u ne l
    by (cases "score (map (\<lambda>doc. (query, page_content doc)) ?fused)")
       (simp_all add: retrieval_chain_def compress_documents_def cross_encoder_compress_def)
qed


lemma twenty_one_results:
  "distinct (map page_content
      (map row_to_doc (map numbered_row [0..<20]) @ map normalize_isbn [book ''978'' ''Z'']))
   \<and> distinct (map isbn_key
      (map row_to_doc (map numbered_row [0..<20]) @ map normalize_isbn [book ''978'' ''Z'']))
   \<and> [] \<notin> isbn_key ` set
      (map row_to_doc (map numbered_row [0..<20]) @ map normalize_isbn [book ''978'' ''Z''])"
  by code_simp

section \<open>The reranker\<close>

text \<open>
  C9. On the empty candidate list \<open>compress_documents\<close> returns the empty list, whatever
  the inherited method and the scoring model would do; the log of scoring calls is the
  one it was given, so the model was not called.
\<close>

theorem compress_documents_empty:
  "compress_documents super_compress [] query calls = (Inr [], calls)"
  by (simp add: compress_documents_def)

text \<open>
  C2, as the claim states it, fails: with two candidates and a scoring model that
  raises, \<open>compress_documents\<close> raises too; it does not return the first candidates of
  the input.
\<close>

theorem compress_documents_no_fallback:
  "fst (compress_documents (cross_encoder_compress failing_score 5)
          [book ''111'' ''A'', book ''222'' ''B''] (ustr ''python'') [])
     = Inl (Raised (ustr ''scoring unavailable''))
   \<and> fst (compress_documents (cross_encoder_compress failing_score 5)
          [book ''111'' ''A'', book ''222'' ''B''] (ustr ''python'') [])
     \<noteq> Inr (take 5 [book ''111'' ''A'', book ''222'' ''B''])"
  by (simp add: compress_documents_def cross_encoder_compress_def failing_score_def)

text \<open>
  C2, amended. If the scoring call raises \<open>e\<close> on a non-empty candidate list, then
  \<open>compress_documents\<close> raises \<open>e\<close>: no candidate is returned and nothing marks the
  result as unranked. The model was called once, with all the candidates.
\<close>

theorem compress_documents_scoring_failure:
  assumes "documents \<noteq> []"
    and "score (map (\<lambda>doc. (query, page_content doc)) documents) = Inl e"
  shows "compress_documents (cross_encoder_compress score top_n) documents query calls
           = (Inl e, calls @ [map (\<lambda>doc. (query, page_content doc)) documents])"
  using assms by (simp add: compress_documents_def cross_encoder_compress_def)

theorem compress_documents_scoring_failure_witness:
  "compress_documents (cross_encoder_compress failing_score 5)
      [book ''111'' ''A'', book ''222'' ''B''] (ustr ''python'') []
     = (Inl (Raised (ustr ''scoring unavailable'')),
        [] @ [map (\<lambda>doc. ((ustr ''python''), page_content doc)) [book ''111'' ''A'', book ''222'' ''B'']])"
  by (rule compress_documents_scoring_failure) (simp_all add: failing_score_def)

text \<open>
  C7, as the claim states it, fails: the database answers with 20 rows (its \<open>top_k\<close>)
  that differ in ISBN and in content, the vector store with one more book. The rank
  fusion keeps the 21 documents, the ISBN filter keeps them too, and the scoring model
  receives 21 pairs in its one call.
\<close>

theorem reranker_scores_more_than_twenty:
  "map length (snd (retrieval_chain weighted_reciprocal_rank flat_score
        (Inr (map numbered_row [0..<20])) (Inr [book ''978'' ''Z'']) (ustr ''python'') [])) = [21]"
proof -
  have "map length (snd (retrieval_chain weighted_reciprocal_rank flat_score
        (Inr (map numbered_row [0..<20])) (Inr [book ''978'' ''Z'']) (ustr ''python'') []))
      = map length ([] :: score_log) @ [length (map numbered_row [0..<20]) + length [book ''978'' ''Z'']]"
    by (rule retrieval_chain_scores_every_result) (use twenty_one_results in simp_all)
  then show ?thesis by simp
qed

text \<open>
  C7, amended. The reranker has no bound of its own on what it scores: every candidate
  of a non-empty list is handed to the scoring model, in one call. Only the list it
  returns is bounded, by \<open>top_n\<close>.
\<close>

theorem compress_documents_scores_all:
  assumes "documents \<noteq> []"
  shows "snd (compress_documents (cross_encoder_compress score top_n) documents query calls)
           = calls @ [map (\<lambda>doc. (query, page_content doc)) documents]
    \<and> (case fst (compress_documents (cross_encoder_compress score top_n) documents query calls) of
          Inl e \<Rightarrow> True
        | Inr compressed \<Rightarrow> length compressed \<le> top_n)"
proof (cases "score (map (\<lambda>doc. (query, page_content doc)) documents)")
  case (Inl e)
  with assms show ?thesis
    by (simp add: compress_documents_def cross_encoder_compress_def)
next
  case (Inr scores)
  with assms show ?thesis
    by (simp add: compress_documents_def cross_encoder_compress_def)
qed

theorem compress_documents_scores_all_witness:
  "snd (compress_documents (cross_encoder_compress flat_score 5)
          [book ''111'' ''A'', book ''222'' ''B''] (ustr ''python'') [])
     = [] @ [map (\<lambda>doc. ((ustr ''python''), page_content doc)) [book ''111'' ''A'', book ''222'' ''B'']]
   \<and> (case fst (compress_documents (cross_encoder_compress flat_score 5)
          [book ''111'' ''A'', book ''222'' ''B''] (ustr ''python'') []) of
        Inl e \<Rightarrow> True
      | Inr compressed \<Rightarrow> length compressed \<le> 5)"
  by (rule compress_documents_scores_all) simp

section \<open>Same-page expansion\<close>

text \<open>
  The state of the loops keeps \<open>seen_contents\<close> equal to the contents of
  \<open>expanded_docs\<close>; a page adds documents of that page only, provided the collection
  answers a request for a page with rows of that page.
\<close>

lemma add_row_cases:
  "add_row (acc, seen) r =
     (if pdf_content r \<in> seen then (acc, seen) else (acc @ [r], insert (pdf_content r) seen))"
  by (simp add: add_row_def)

lemma add_rows_seen:
  "snd (foldl add_row (acc, seen) rows) = seen \<union> pdf_content ` set rows"
  by (induction rows arbitrary: acc seen) (auto simp: add_row_cases)

lemma add_rows_new:
  "\<exists>ys. fst (foldl add_row (acc, seen) rows) = acc @ ys
        \<and> set ys \<subseteq> set rows \<and> pdf_content ` set ys \<inter> seen = {}"
proof (induction rows arbitrary: acc seen)
  case Nil
  show ?case by simp
next
  case (Cons r rows)
  show ?case
  proof (cases "pdf_content r \<in> seen")
    case True
    obtain ys where ys: "fst (foldl add_row (acc, seen) rows) = acc @ ys"
      "set ys \<subseteq> set rows" "pdf_content ` set ys \<inter> seen = {}"
      using Cons.IH [of acc seen] by blast
    have "fst (foldl add_row (acc, seen) (r # rows)) = acc @ ys"
      using True ys(1) by (simp add: add_row_cases)
    moreover have "set ys \<subseteq> set (r # rows)" using ys(2) by (simp add: subset_insertI2)
    ultimately show ?thesis using ys(3) by blast
  next
    case False
    obtain ys where ys: "fst (foldl add_row (acc @ [r], insert (pdf_content r) seen) rows) = (acc @ [r]) @ ys"
      "set ys \<subseteq> set rows" "pdf_content ` set ys \<inter> insert (pdf_content r) seen = {}"
      using Cons.IH [of "acc @ [r]" "insert (pdf_content r) seen"] by blast
    have a: "fst (foldl add_row (acc, seen) (r # rows)) = acc @ (r # ys)"
      using False ys(1) by (simp add: add_row_cases)
    have b: "set (r # ys) \<subseteq> set (r # rows)" using ys(2) by (simp add: subset_insertI2)
    have "pdf_content ` set ys \<inter> seen = {}" using ys(3) by blast
    then have c: "pdf_content ` set (r # ys) \<inter> seen = {}" using False by simp
    from a b c show ?thesis by blast
  qed
qed


lemma add_rows_inv:
  "seen = pdf_content ` set acc \<Longrightarrow>
     snd (foldl add_row (acc, seen) rows) = pdf_content ` set (fst (foldl add_row (acc, seen) rows))"
proof (induction rows arbitrary: acc seen)
  case Nil
  then show ?case by simp
next
  case (Cons r rows)
  show ?case
  proof (cases "pdf_content r \<in> seen")
    case True
    then show ?thesis using Cons.IH [OF Cons.prems] by (simp add: add_row_cases)
  next
    case False
    have "insert (pdf_content r) seen = pdf_content ` set (acc @ [r])"
      using Cons.prems by simp
    from Cons.IH [OF this] False show ?thesis by (simp add: add_row_cases)
  qed
qed

lemma fetch_page_new:
  assumes sound: "\<And>page rows row. coll_get page = Inr rows \<Longrightarrow> row \<in> set rows \<Longrightarrow> pdf_page row = Some page"
  shows "\<exists>ys. fetch_page coll_get (acc, pdf_content ` set acc) page
               = (acc @ ys, pdf_content ` set (acc @ ys))
        \<and> pdf_page ` set ys \<subseteq> {Some page}
        \<and> pdf_content ` set ys \<inter> pdf_content ` set acc = {}"
proof (cases "coll_get page")
  case (Inl e)
  then have "fetch_page coll_get (acc, pdf_content ` set acc) page = (acc @ [], pdf_content ` set (acc @ []))
      \<and> pdf_page ` set [] \<subseteq> {Some page}
      \<and> pdf_content ` set [] \<inter> pdf_content ` set acc = {}"
    by (simp add: fetch_page_def)
  then show ?thesis by blast
next
  case (Inr rows)
  let ?seen = "pdf_content ` set acc"
  let ?st = "foldl add_row (acc, ?seen) rows"
  obtain ys where ys: "fst ?st = acc @ ys"
    "set ys \<subseteq> set rows" "pdf_content ` set ys \<inter> ?seen = {}"
    using add_rows_new [of acc ?seen rows] by blast
  have "snd ?st = pdf_content ` set (fst ?st)"
    by (rule add_rows_inv) simp
  then have "?st = (acc @ ys, pdf_content ` set (acc @ ys))"
    using ys(1) by (metis prod.collapse)
  then have a: "fetch_page coll_get (acc, ?seen) page = (acc @ ys, pdf_content ` set (acc @ ys))"
    using Inr by (simp add: fetch_page_def)
  have b: "pdf_page ` set ys \<subseteq> {Some page}"
    using sound [OF Inr] ys(2) by blast
  from a b ys(3) show ?thesis by blast
qed

lemma fetch_pages_new:
  assumes sound: "\<And>page rows row. coll_get page = Inr rows \<Longrightarrow> row \<in> set rows \<Longrightarrow> pdf_page row = Some page"
  shows "\<exists>ys. foldl (fetch_page coll_get) (acc, pdf_content ` set acc) pages
               = (acc @ ys, pdf_content ` set (acc @ ys))
        \<and> pdf_page ` set ys \<subseteq> Some ` set pages
        \<and> pdf_content ` set ys \<inter> pdf_content ` set acc = {}"
proof (induction pages arbitrary: acc)
  case Nil
  have "foldl (fetch_page coll_get) (acc, pdf_content ` set acc) []
               = (acc @ [], pdf_content ` set (acc @ []))
        \<and> pdf_page ` set [] \<subseteq> Some ` set []
        \<and> pdf_content ` set [] \<inter> pdf_content ` set acc = {}"
    by simp
  then show ?case by blast
next
  case (Cons p pages)
  from fetch_page_new [OF sound, where acc = acc and page = p]
  obtain ys where ys0: "fetch_page coll_get (acc, pdf_content ` set acc) p
               = (acc @ ys, pdf_content ` set (acc @ ys))
        \<and> pdf_page ` set ys \<subseteq> {Some p}
        \<and> pdf_content ` set ys \<inter> pdf_content ` set acc = {}" ..
  then have ys: "fetch_page coll_get (acc, pdf_content ` set acc) p
               = (acc @ ys, pdf_content ` set (acc @ ys))"
        "pdf_page ` set ys \<subseteq> {Some p}"
        "pdf_content ` set ys \<inter> pdf_content ` set acc = {}"
    by simp_all
  from Cons.IH [of "acc @ ys"]
  obtain zs where zs0: "foldl (fetch_page coll_get) (acc @ ys, pdf_content ` set (acc @ ys)) pages
               = ((acc @ ys) @ zs, pdf_content ` set ((acc @ ys) @ zs))
        \<and> pdf_page ` set zs \<subseteq> Some ` set pages
        \<and> pdf_content ` set zs \<inter> pdf_content ` set (acc @ ys) = {}" ..
  then have zs: "foldl (fetch_page coll_get) (acc @ ys, pdf_content ` set (acc @ ys)) pages
               = ((acc @ ys) @ zs, pdf_content ` set ((acc @ ys) @ zs))"
        "pdf_page ` set zs \<subseteq> Some ` set pages"
        "pdf_content ` set zs \<inter> pdf_content ` set (acc @ ys) = {}"
    by simp_all
  have a: "foldl (fetch_page coll_get) (acc, pdf_content ` set acc) (p # pages)
      = (acc @ (ys @ zs), pdf_content ` set (acc @ (ys @ zs)))"
    using ys(1) zs(1) by simp
  have b: "pdf_page ` set (ys @ zs) \<subseteq> Some ` set (p # pages)"
    using ys(2) zs(2) by auto
  have "pdf_content ` set zs \<inter> pdf_content ` set acc = {}"
    using zs(3) by auto
  then have c: "pdf_content ` set (ys @ zs) \<inter> pdf_content ` set acc = {}"
    using ys(3) by auto
  from a b c show ?case by (intro exI [of _ "ys @ zs"] conjI)
qed


lemma fetch_pages_skip:
  assumes sound: "\<And>page rows row. coll_get page = Inr rows \<Longrightarrow> row \<in> set rows \<Longrightarrow> pdf_page row = Some page"
    and idle: "\<And>q d. q \<in> set pages \<Longrightarrow> \<not> P q
        \<Longrightarrow> d \<in> set (fst (foldl (fetch_page coll_get) (acc, pdf_content ` set acc) pages))
        \<Longrightarrow> pdf_page d = Some q \<Longrightarrow> d \<in> set acc"
  shows "foldl (fetch_page coll_get) (acc, pdf_content ` set acc) (filter P pages)
       = foldl (fetch_page coll_get) (acc, pdf_content ` set acc) pages"
  using idle
proof (induction pages arbitrary: acc)
  case Nil
  show ?case by simp
next
  case (Cons p pages)
  from fetch_page_new [OF sound, where acc = acc and page = p]
  obtain ys where ys0: "fetch_page coll_get (acc, pdf_content ` set acc) p
               = (acc @ ys, pdf_content ` set (acc @ ys))
        \<and> pdf_page ` set ys \<subseteq> {Some p}
        \<and> pdf_content ` set ys \<inter> pdf_content ` set acc = {}" ..
  then have ys: "fetch_page coll_get (acc, pdf_content ` set acc) p
               = (acc @ ys, pdf_content ` set (acc @ ys))"
        "pdf_page ` set ys \<subseteq> {Some p}"
        "pdf_content ` set ys \<inter> pdf_content ` set acc = {}"
    by simp_all
  from fetch_pages_new [OF sound, where acc = "acc @ ys" and pages = pages]
  obtain zs where zs0: "foldl (fetch_page coll_get) (acc @ ys, pdf_content ` set (acc @ ys)) pages
               = ((acc @ ys) @ zs, pdf_content ` set ((acc @ ys) @ zs))
        \<and> pdf_page ` set zs \<subseteq> Some ` set pages
        \<and> pdf_content ` set zs \<inter> pdf_content ` set (acc @ ys) = {}" ..
  then have zs: "foldl (fetch_page coll_get) (acc @ ys, pdf_content ` set (acc @ ys)) pages
               = ((acc @ ys) @ zs, pdf_content ` set ((acc @ ys) @ zs))"
    by simp
  have final: "fst (foldl (fetch_page coll_get) (acc, pdf_content ` set acc) (p # pages)) = acc @ ys @ zs"
    using ys(1) zs by simp
  have rest: "foldl (fetch_page coll_get) (acc @ ys, pdf_content ` set (acc @ ys)) (filter P pages)
       = foldl (fetch_page coll_get) (acc @ ys, pdf_content ` set (acc @ ys)) pages"
  proof (rule Cons.IH)
    fix q d
    assume q: "q \<in> set pages" "\<not> P q"
      and d: "d \<in> set (fst (foldl (fetch_page coll_get) (acc @ ys, pdf_content ` set (acc @ ys)) pages))"
        "pdf_page d = Some q"
    have "d \<in> set (fst (foldl (fetch_page coll_get) (acc, pdf_content ` set acc) (p # pages)))"
      using d(1) ys(1) by simp
    then have "d \<in> set acc"
      using Cons.prems [of q d] q d(2) by simp
    then show "d \<in> set (acc @ ys)" by simp
  qed
  show ?case
  proof (cases "P p")
    case True
    then show ?thesis using rest ys(1) by simp
  next
    case False
    have "ys = []"
    proof (rule ccontr)
      assume "ys \<noteq> []"
      then obtain y where y: "y \<in> set ys" by (cases ys) auto
      then have "pdf_page y = Some p" using ys(2) by auto
      moreover have "y \<in> set (fst (foldl (fetch_page coll_get) (acc, pdf_content ` set acc) (p # pages)))"
        using y final by simp
      ultimately have "y \<in> set acc"
        using Cons.prems [of p y] False by simp
      then show False using y ys(3) by blast
    qed
    then show ?thesis using rest ys(1) False by simp
  qed
qed

lemma sorted_list_of_subset:
  fixes A :: "int set"
  assumes "finite A"
  shows "sorted_list_of_set {q \<in> A. P q} = filter P (sorted_list_of_set A)"
proof (rule sorted_distinct_set_unique)
  show "sorted (sorted_list_of_set {q \<in> A. P q})" by simp
  show "distinct (sorted_list_of_set {q \<in> A. P q})" by simp
  show "sorted (filter P (sorted_list_of_set A))" by (simp add: sorted_wrt_filter)
  show "distinct (filter P (sorted_list_of_set A))" by simp
  show "set (sorted_list_of_set {q \<in> A. P q}) = set (filter P (sorted_list_of_set A))"
    using assms by auto
qed


lemma fetched_docs_pages:
  fixes coll_get :: "int \<Rightarrow> error + 'm pdf_doc list"
  assumes sound: "\<And>page rows row. coll_get page = Inr rows \<Longrightarrow> row \<in> set rows \<Longrightarrow> pdf_page row = Some page"
  shows "pdf_page ` set (fetched_docs coll_get chunks) \<subseteq> Some ` (\<lambda>c. get_page c 1) ` set chunks"
proof -
  let ?ps = "sorted_list_of_set (set (map (\<lambda>doc. get_page doc 1) chunks))"
  let ?nil = "[] :: 'm pdf_doc list"
  from fetch_pages_new [OF sound, where acc = ?nil and pages = ?ps]
  obtain ys where ys0: "foldl (fetch_page coll_get) (?nil, pdf_content ` set ?nil) ?ps
               = (?nil @ ys, pdf_content ` set (?nil @ ys))
        \<and> pdf_page ` set ys \<subseteq> Some ` set ?ps
        \<and> pdf_content ` set ys \<inter> pdf_content ` set ?nil = {}" ..
  then have "fetched_docs coll_get chunks = ys"
    by (simp add: fetched_docs_def)
  moreover have "pdf_page ` set ys \<subseteq> Some ` set ?ps" using ys0 by simp
  moreover have "set ?ps = (\<lambda>c. get_page c 1) ` set chunks" by simp
  ultimately show ?thesis by simp
qed

lemma sorted_fst_of_sorted_pairs:
  fixes f :: "'a \<Rightarrow> int \<times> ustring"
  shows "sorted (map f xs) \<Longrightarrow> sorted (map (\<lambda>x. fst (f x)) xs)"
  by (induction xs) (auto simp: less_eq_prod_def)

lemma expand_same_page_twice:
  fixes coll_get :: "int \<Rightarrow> error + 'm pdf_doc list"
  assumes sound: "\<And>page rows row. coll_get page = Inr rows \<Longrightarrow> row \<in> set rows \<Longrightarrow> pdf_page row = Some page"
  shows "expand_same_page coll_get (expand_same_page coll_get chunks) = expand_same_page coll_get chunks
    \<and> pdf_page ` set (expand_same_page coll_get chunks) \<subseteq> Some ` (\<lambda>c. get_page c 1) ` set chunks"
proof -
  let ?A = "set (map (\<lambda>doc. get_page doc 1) chunks)"
  let ?ps = "sorted_list_of_set ?A"
  let ?final = "fetched_docs coll_get chunks"
  let ?E = "expand_same_page coll_get chunks"
  let ?B = "set (map (\<lambda>doc. get_page doc 1) ?E)"
  let ?nil = "[] :: 'm pdf_doc list"
  have setE: "set ?E = set ?final" by (simp add: expand_same_page_def)
  have pages: "pdf_page ` set ?final \<subseteq> Some ` ?A"
    using fetched_docs_pages [OF sound, where chunks = chunks] by simp
  have page_of: "pdf_page d = Some (get_page d 1) \<and> get_page d 1 \<in> ?A" if "d \<in> set ?final" for d
  proof -
    from that pages obtain q where "q \<in> ?A" "pdf_page d = Some q" by blast
    then show ?thesis by (simp add: get_page_def)
  qed
  have B: "?B = {q \<in> ?A. q \<in> ?B}"
    using page_of setE by auto
  have "sorted_list_of_set ?B = sorted_list_of_set {q \<in> ?A. q \<in> ?B}"
    using B by simp
  also have "\<dots> = filter (\<lambda>q. q \<in> ?B) ?ps"
    by (rule sorted_list_of_subset) simp
  finally have ps2: "sorted_list_of_set ?B = filter (\<lambda>q. q \<in> ?B) ?ps" .
  have skip: "foldl (fetch_page coll_get) (?nil, pdf_content ` set ?nil) (filter (\<lambda>q. q \<in> ?B) ?ps)
       = foldl (fetch_page coll_get) (?nil, pdf_content ` set ?nil) ?ps"
  proof (rule fetch_pages_skip [OF sound])
    fix q d
    assume q: "q \<in> set ?ps" "\<not> q \<in> ?B"
      and d: "d \<in> set (fst (foldl (fetch_page coll_get) (?nil, pdf_content ` set ?nil) ?ps))"
        "pdf_page d = Some q"
    from d(1) have "d \<in> set ?final" by (simp add: fetched_docs_def)
    then have "get_page d 1 \<in> ?B" using setE by simp
    moreover have "get_page d 1 = q" using d(2) by (simp add: get_page_def)
    ultimately show "d \<in> set ?nil" using q(2) by simp
  qed
  have "fetched_docs coll_get ?E = fst (foldl (fetch_page coll_get) ([], {}) (sorted_list_of_set ?B))"
    by (simp add: fetched_docs_def)
  also have "\<dots> = fst (foldl (fetch_page coll_get) ([], {}) ?ps)"
    using skip ps2 by simp
  also have "\<dots> = ?final" by (simp add: fetched_docs_def)
  finally have "fetched_docs coll_get ?E = ?final" .
  then have idem: "expand_same_page coll_get ?E = ?E"
    by (simp add: expand_same_page_def)
  have "pdf_page ` set ?E \<subseteq> Some ` (\<lambda>c. get_page c 1) ` set chunks"
    using pages setE by simp
  with idem show ?thesis by simp
qed

lemma add_row_wf:
  "snd st = pdf_content ` set (fst st) \<and> distinct (map pdf_content (fst st))
   \<Longrightarrow> snd (add_row st r) = pdf_content ` set (fst (add_row st r))
       \<and> distinct (map pdf_content (fst (add_row st r)))"
  by (cases st) (auto simp: add_row_cases)

lemma add_rows_wf:
  "snd st = pdf_content ` set (fst st) \<and> distinct (map pdf_content (fst st))
   \<Longrightarrow> snd (foldl add_row st rows) = pdf_content ` set (fst (foldl add_row st rows))
       \<and> distinct (map pdf_content (fst (foldl add_row st rows)))"
proof (induction rows arbitrary: st)
  case Nil
  then show ?case by simp
next
  case (Cons r rows)
  from add_row_wf [OF Cons.prems]
  have "snd (add_row st r) = pdf_content ` set (fst (add_row st r))
       \<and> distinct (map pdf_content (fst (add_row st r)))" .
  from Cons.IH [OF this] show ?case by simp
qed

lemma fetch_page_wf:
  assumes "snd st = pdf_content ` set (fst st) \<and> distinct (map pdf_content (fst st))"
  shows "snd (fetch_page coll_get st page) = pdf_content ` set (fst (fetch_page coll_get st page))
       \<and> distinct (map pdf_content (fst (fetch_page coll_get st page)))"
proof (cases "coll_get page")
  case (Inl e)
  then show ?thesis using assms by (simp add: fetch_page_def)
next
  case (Inr rows)
  then show ?thesis using add_rows_wf [OF assms, of rows] by (simp add: fetch_page_def)
qed

lemma fetch_pages_wf:
  "snd st = pdf_content ` set (fst st) \<and> distinct (map pdf_content (fst st))
   \<Longrightarrow> snd (foldl (fetch_page coll_get) st pages)
           = pdf_content ` set (fst (foldl (fetch_page coll_get) st pages))
       \<and> distinct (map pdf_content (fst (foldl (fetch_page coll_get) st pages)))"
proof (induction pages arbitrary: st)
  case Nil
  then show ?case by simp
next
  case (Cons p pages)
  from fetch_page_wf [OF Cons.prems]
  have "snd (fetch_page coll_get st p) = pdf_content ` set (fst (fetch_page coll_get st p))
       \<and> distinct (map pdf_content (fst (fetch_page coll_get st p)))" .
  from Cons.IH [OF this] show ?case by simp
qed

lemma fetch_page_seen:
  "snd (fetch_page coll_get st page)
     = snd st \<union> (case coll_get page of Inl e \<Rightarrow> {} | Inr rows \<Rightarrow> pdf_content ` set rows)"
  by (cases st; cases "coll_get page") (simp_all add: fetch_page_def add_rows_seen)

lemma fetch_pages_seen:
  "snd (foldl (fetch_page coll_get) st pages)
     = snd st \<union> (\<Union>p\<in>set pages. case coll_get p of Inl e \<Rightarrow> {} | Inr rows \<Rightarrow> pdf_content ` set rows)"
proof (induction pages arbitrary: st)
  case Nil
  show ?case by simp
next
  case (Cons p pages)
  show ?case
    using Cons.IH [of "fetch_page coll_get st p"] by (simp add: fetch_page_seen Un_assoc)
qed

lemma add_rows_subset:
  "set (fst (foldl add_row st rows)) \<subseteq> set (fst st) \<union> set rows"
proof (induction rows arbitrary: st)
  case Nil
  show ?case by simp
next
  case (Cons r rows)
  have "set (fst (add_row st r)) \<subseteq> set (fst st) \<union> {r}"
    by (cases st) (auto simp: add_row_cases)
  then show ?case using Cons.IH [of "add_row st r"] by auto
qed

lemma fetch_page_subset:
  "set (fst (fetch_page coll_get st page))
     \<subseteq> set (fst st) \<union> (case coll_get page of Inl e \<Rightarrow> {} | Inr rows \<Rightarrow> set rows)"
  by (cases "coll_get page") (simp_all add: fetch_page_def add_rows_subset)

lemma fetch_pages_subset:
  "set (fst (foldl (fetch_page coll_get) st pages))
     \<subseteq> set (fst st) \<union> (\<Union>p\<in>set pages. case coll_get p of Inl e \<Rightarrow> {} | Inr rows \<Rightarrow> set rows)"
proof (induction pages arbitrary: st)
  case Nil
  show ?case by simp
next
  case (Cons p pages)
  have a: "set (fst (foldl (fetch_page coll_get) (fetch_page coll_get st p) pages))
     \<subseteq> set (fst (fetch_page coll_get st p))
        \<union> (\<Union>p\<in>set pages. case coll_get p of Inl e \<Rightarrow> {} | Inr rows \<Rightarrow> set rows)"
    by (rule Cons.IH)
  have b: "set (fst (fetch_page coll_get st p))
     \<subseteq> set (fst st) \<union> (case coll_get p of Inl e \<Rightarrow> {} | Inr rows \<Rightarrow> set rows)"
    by (rule fetch_page_subset)
  from a b show ?case by auto
qed

lemma fetched_docs_contents:
  fixes coll_get :: "int \<Rightarrow> error + 'm pdf_doc list"
  shows "pdf_content ` set (fetched_docs coll_get chunks)
       = (\<Union>p\<in>(\<lambda>c. get_page c 1) ` set chunks.
            case coll_get p of Inl e \<Rightarrow> {} | Inr rows \<Rightarrow> pdf_content ` set rows)"
    and "distinct (map pdf_content (fetched_docs coll_get chunks))"
    and "set (fetched_docs coll_get chunks)
       \<subseteq> (\<Union>p\<in>(\<lambda>c. get_page c 1) ` set chunks.
            case coll_get p of Inl e \<Rightarrow> {} | Inr rows \<Rightarrow> set rows)"
proof -
  let ?ps = "sorted_list_of_set (set (map (\<lambda>doc. get_page doc 1) chunks))"
  let ?st = "([], {}) :: 'm pdf_doc list \<times> ustring set"
  have ps: "set ?ps = (\<lambda>c. get_page c 1) ` set chunks" by simp
  have wf: "snd (foldl (fetch_page coll_get) ?st ?ps)
           = pdf_content ` set (fst (foldl (fetch_page coll_get) ?st ?ps))
       \<and> distinct (map pdf_content (fst (foldl (fetch_page coll_get) ?st ?ps)))"
    by (rule fetch_pages_wf) simp
  have seen: "snd (foldl (fetch_page coll_get) ?st ?ps)
     = snd ?st \<union> (\<Union>p\<in>set ?ps. case coll_get p of Inl e \<Rightarrow> {} | Inr rows \<Rightarrow> pdf_content ` set rows)"
    by (rule fetch_pages_seen)
  show "pdf_content ` set (fetched_docs coll_get chunks)
       = (\<Union>p\<in>(\<lambda>c. get_page c 1) ` set chunks.
            case coll_get p of Inl e \<Rightarrow> {} | Inr rows \<Rightarrow> pdf_content ` set rows)"
    using wf seen unfolding ps fetched_docs_def Let_def by simp
  show "distinct (map pdf_content (fetched_docs coll_get chunks))"
    using wf unfolding fetched_docs_def Let_def by simp
  show "set (fetched_docs coll_get chunks)
       \<subseteq> (\<Union>p\<in>(\<lambda>c. get_page c 1) ` set chunks.
            case coll_get p of Inl e \<Rightarrow> {} | Inr rows \<Rightarrow> set rows)"
    using fetch_pages_subset [of coll_get ?st ?ps] unfolding ps fetched_docs_def Let_def by simp
qed

text \<open>
  C4, as the claim states it, fails: the expansion does remove chunks. The request for
  page 3 raises, which the loop catches, so the anchor on page 3 is not in the result,
  while the other chunk of page 2 is added.
\<close>

theorem expand_same_page_drops_anchor:
  "shelf 3 = Inl (Raised (ustr ''timeout''))
   \<and> expand_same_page shelf [chunk ''c'' 2, chunk ''z'' 3] = [chunk ''a'' 2, chunk ''c'' 2]
   \<and> pdf_content (chunk ''z'' 3)
       \<notin> pdf_content ` set (expand_same_page shelf [chunk ''c'' 2, chunk ''z'' 3])"
  by code_simp

text \<open>
  C4, amended. Let the collection answer every request \<open>where={"page": p}\<close> with rows
  whose page is \<open>p\<close>, and let it answer alike whenever it is asked (it is the function
  \<open>coll_get\<close>). Then expanding the result of an expansion returns that result again,
  the same documents in the same order, and every document of an expansion lies on the
  page of one of the chunks it was expanded from. The result is made of fetched rows
  only, never of the anchors themselves: its contents are exactly the contents of the
  rows of every anchor's page whose request succeeded, each content once. So an anchor
  stays (by content) where the request for its page returns it, and is dropped where
  that request raises or does not return it. The result is in the order of the sort
  key.
\<close>

theorem expand_same_page_fixed_point:
  fixes coll_get :: "int \<Rightarrow> error + 'm pdf_doc list"
  assumes sound: "\<And>page rows row. coll_get page = Inr rows \<Longrightarrow> row \<in> set rows \<Longrightarrow> pdf_page row = Some page"
  shows "expand_same_page coll_get (expand_same_page coll_get chunks) = expand_same_page coll_get chunks
    \<and> pdf_page ` set (expand_same_page coll_get chunks) \<subseteq> Some ` (\<lambda>c. get_page c 1) ` set chunks
    \<and> pdf_content ` set (expand_same_page coll_get chunks)
        = (\<Union>p\<in>(\<lambda>c. get_page c 1) ` set chunks.
             case coll_get p of Inl e \<Rightarrow> {} | Inr rows \<Rightarrow> pdf_content ` set rows)
    \<and> set (expand_same_page coll_get chunks)
        \<subseteq> (\<Union>p\<in>(\<lambda>c. get_page c 1) ` set chunks.
             case coll_get p of Inl e \<Rightarrow> {} | Inr rows \<Rightarrow> set rows)
    \<and> distinct (map pdf_content (expand_same_page coll_get chunks))
    \<and> sorted (map sort_key_of (expand_same_page coll_get chunks))"
proof -
  have o: "sorted (map sort_key_of (expand_same_page coll_get chunks))"
    by (simp add: expand_same_page_def)
  have setE: "set (expand_same_page coll_get chunks) = set (fetched_docs coll_get chunks)"
    by (simp add: expand_same_page_def)
  have d: "distinct (map pdf_content (expand_same_page coll_get chunks))"
    unfolding expand_same_page_def
    by (rule distinct_map_sort_key) (rule fetched_docs_contents(2))
  have twice: "expand_same_page coll_get (expand_same_page coll_get chunks)
        = expand_same_page coll_get chunks
      \<and> pdf_page ` set (expand_same_page coll_get chunks)
        \<subseteq> Some ` (\<lambda>c. get_page c 1) ` set chunks"
    by (rule expand_same_page_twice) (rule sound)
  have c: "pdf_content ` set (expand_same_page coll_get chunks)
        = (\<Union>p\<in>(\<lambda>c. get_page c 1) ` set chunks.
             case coll_get p of Inl e \<Rightarrow> {} | Inr rows \<Rightarrow> pdf_content ` set rows)"
    unfolding setE by (rule fetched_docs_contents(1))
  have r: "set (expand_same_page coll_get chunks)
        \<subseteq> (\<Union>p\<in>(\<lambda>c. get_page c 1) ` set chunks.
             case coll_get p of Inl e \<Rightarrow> {} | Inr rows \<Rightarrow> set rows)"
    unfolding setE by (rule fetched_docs_contents(3))
  from twice have t1: "expand_same_page coll_get (expand_same_page coll_get chunks)
        = expand_same_page coll_get chunks" ..
  from twice have t2: "pdf_page ` set (expand_same_page coll_get chunks)
        \<subseteq> Some ` (\<lambda>c. get_page c 1) ` set chunks" ..
  from t1 t2 c r d o show ?thesis by (intro conjI)
qed

theorem expand_same_page_fixed_point_witness:
  "expand_same_page shelf (expand_same_page shelf [chunk ''c'' 2, chunk ''b'' 1, chunk ''z'' 3])
     = expand_same_page shelf [chunk ''c'' 2, chunk ''b'' 1, chunk ''z'' 3]
   \<and> pdf_page ` set (expand_same_page shelf [chunk ''c'' 2, chunk ''b'' 1, chunk ''z'' 3])
       \<subseteq> Some ` (\<lambda>c. get_page c 1) ` set [chunk ''c'' 2, chunk ''b'' 1, chunk ''z'' 3]
   \<and> pdf_content ` set (expand_same_page shelf [chunk ''c'' 2, chunk ''b'' 1, chunk ''z'' 3])
        = (\<Union>p\<in>(\<lambda>c. get_page c 1) ` set [chunk ''c'' 2, chunk ''b'' 1, chunk ''z'' 3].
             case shelf p of Inl e \<Rightarrow> {} | Inr rows \<Rightarrow> pdf_content ` set rows)
   \<and> set (expand_same_page shelf [chunk ''c'' 2, chunk ''b'' 1, chunk ''z'' 3])
        \<subseteq> (\<Union>p\<in>(\<lambda>c. get_page c 1) ` set [chunk ''c'' 2, chunk ''b'' 1, chunk ''z'' 3].
             case shelf p of Inl e \<Rightarrow> {} | Inr rows \<Rightarrow> set rows)
   \<and> distinct (map pdf_content (expand_same_page shelf [chunk ''c'' 2, chunk ''b'' 1, chunk ''z'' 3]))
   \<and> sorted (map sort_key_of (expand_same_page shelf [chunk ''c'' 2, chunk ''b'' 1, chunk ''z'' 3]))"
  by (rule expand_same_page_fixed_point) (auto simp: shelf_def chunk_def split: if_splits)

text \<open>
  C5, as the claim states it, fails: the collection holds the chunks of page 1 in the
  order \<open>b\<close>, \<open>a\<close>, and the expansion returns them in the order \<open>a\<close>, \<open>b\<close>.
\<close>

theorem expand_same_page_not_store_order:
  "shelf 1 = Inr [chunk ''b'' 1, chunk ''a'' 1]
   \<and> expand_same_page shelf [chunk ''b'' 1] = [chunk ''a'' 1, chunk ''b'' 1]"
  by code_simp


text \<open>
  C5, amended. The result is sorted by the page, ascending, and within a page by the
  first 50 characters of the content; documents that agree in both keep the order in
  which they were fetched.
\<close>

theorem expand_same_page_order:
  "sorted (map (\<lambda>d. get_page d 0) (expand_same_page coll_get chunks))
   \<and> sorted (map sort_key_of (expand_same_page coll_get chunks))
   \<and> filter (\<lambda>d. sort_key_of d = k) (expand_same_page coll_get chunks)
       = filter (\<lambda>d. sort_key_of d = k) (fetched_docs coll_get chunks)"
proof -
  have s: "sorted (map sort_key_of (expand_same_page coll_get chunks))"
    by (simp add: expand_same_page_def)
  from sorted_fst_of_sorted_pairs [OF s]
  have "sorted (map (\<lambda>d. get_page d 0) (expand_same_page coll_get chunks))"
    by (simp add: sort_key_of_def)
  moreover have "filter (\<lambda>d. sort_key_of d = k) (expand_same_page coll_get chunks)
       = filter (\<lambda>d. sort_key_of d = k) (fetched_docs coll_get chunks)"
    by (simp add: expand_same_page_def sort_key_stable)
  ultimately show ?thesis using s by simp
qed

text \<open>
  The 50 characters of the key are code points: two contents that share 25 letters
  \<open>e\<close> with an acute accent and differ in the letter after them are sorted by that
  letter.
\<close>

lemma expand_same_page_sorts_by_code_points:
  "expand_same_page
     (\<lambda>page. if page = 1
        then Inr [\<lparr> pdf_content = replicate 25 0xE9 @ ustr ''b'', pdf_page = Some 1, pdf_meta = () \<rparr>,
                  \<lparr> pdf_content = replicate 25 0xE9 @ ustr ''a'', pdf_page = Some 1, pdf_meta = () \<rparr>]
        else Inr [])
     [\<lparr> pdf_content = replicate 25 0xE9 @ ustr ''b'', pdf_page = Some 1, pdf_meta = () \<rparr>]
   = [\<lparr> pdf_content = replicate 25 0xE9 @ ustr ''a'', pdf_page = Some 1, pdf_meta = () \<rparr>,
      \<lparr> pdf_content = replicate 25 0xE9 @ ustr ''b'', pdf_page = Some 1, pdf_meta = () \<rparr>]"
  by code_simp

section \<open>Bulk indexing\<close>

text \<open>
  The retry loop always ends with a message: it is left by a \<open>return\<close>, never by its
  condition. A batch whose first call succeeds reports \<open>OK\<close>.
\<close>

lemma retry_loop_last:
  "retry_loop upsert b 3 =
     (case upsert 3 of
        Upserted \<Rightarrow> Some (ok_message b)
      | UpsertRaised e \<Rightarrow> if is_rate_limit e then Some (failed_message b) else Some (error_message b e))"
  by (subst retry_loop.simps) (simp add: max_retries_def split: upsert_outcome.splits)

lemma retry_loop_returns: "retry_count \<le> 3 \<Longrightarrow> \<exists>r. retry_loop upsert b retry_count = Some r"
proof (induction "3 - retry_count" arbitrary: retry_count)
  case 0
  then have "retry_count = 3" by simp
  then show ?case by (simp add: retry_loop_last split: upsert_outcome.splits)
next
  case (Suc n)
  then have lt: "retry_count < 3" and ih: "\<exists>r. retry_loop upsert b (retry_count + 1) = Some r"
    by auto
  show ?case
    using lt ih by (subst retry_loop.simps) (auto simp: max_retries_def split: upsert_outcome.splits)
qed

lemma process_batch_returns: "\<exists>r. process_batch upsert batch_idx = Some r"
  by (simp add: process_batch_def retry_loop_returns)

lemma process_batch_ok:
  "upsert batch_idx 0 = Upserted \<Longrightarrow> process_batch upsert batch_idx = Some (ok_message (batch_idx + 1))"
  by (simp add: process_batch_def retry_loop.simps [of _ _ 0] max_retries_def)

text \<open>
  A batch that the rate limit rejects four times is reported: the ingestion raises.
\<close>

lemma index_documents_rate_limit_exhausted:
  "process_batch rate_limited_upsert 0 = Some (failed_message 1)
   \<and> index_documents rate_limited_upsert [0] (Inr 0) [chunk ''a'' 1] 100
     = Inl (Raised (ustr ''Indexing incomplete. 1 batches failed. Details: '' @ failed_message 1))"
  by code_simp

text \<open>
  C6. One document, one batch, and a store that rejects the upsert with the message
  \<open>Invalid TOKEN\<close>, which is no rate limit: the batch ends with its \<open>ERROR\<close> message.
  That message contains \<open>OK\<close> (in \<open>TOKEN\<close>), so the test \<open>"OK" in result\<close> takes the
  batch for a success, and \<open>index_documents\<close> returns normally.
\<close>

theorem index_documents_counts_failed_batch_as_ok:
  "batches_of [chunk ''a'' 1] 100 = [[chunk ''a'' 1]]
   \<and> process_batch bad_token_upsert 0 = Some (error_message 1 (ustr ''Invalid TOKEN''))
   \<and> index_documents bad_token_upsert [0] (Inr 0) [chunk ''a'' 1] 100 = Inr ()"
  by code_simp

section \<open>The retriever cache\<close>

text \<open>
  A thread that runs alone from the test to the return does what the function does.
\<close>

lemma single_thread_is_the_function:
  "run_schedule build [0, 0, 0] ([(pdf_path, AtTest)], st)
     = ([(pdf_path, Returned (fst (get_or_create_retriever build pdf_path st)))],
        snd (get_or_create_retriever build pdf_path st))"
  by (simp add: run_schedule_def thread_step_def get_or_create_retriever_def
      split: option.splits sum.splits)









section \<open>The input of the book search tool\<close>

text \<open>
  Where a value for the query is found and it is falsy (an empty string, \<open>None\<close>, zero,
  an empty container), the tool returns the fixed message and the rest of its body is
  not run.
\<close>

lemma book_search_tool_guard:
  "clean_query_of json_loads query = Inr v \<Longrightarrow> \<not> truthy v
     \<Longrightarrow> book_search_tool json_loads search query = Inr missing_query_message"
  by (simp add: book_search_tool_def)

lemma book_search_tool_empty_string:
  "book_search_tool json_loads search (QStr []) = Inr missing_query_message"
  by (simp add: book_search_tool_def clean_query_of_def strip_def ustr_def)

lemma book_search_tool_empty_query_field:
  "book_search_tool json_loads search (QDict [(''query'', JStr [])]) = Inr missing_query_message"
  by (simp add: book_search_tool_def clean_query_of_def query_or_first_def first_value_def)

text \<open>
  The string \<open>{}\<close> is searched for as it stands: the \<open>IndexError\<close> of the empty object is
  swallowed in the string branch.
\<close>

lemma book_search_tool_empty_json_object:
  "json_loads (ustr ''{}'') = Inr (JObj [])
     \<Longrightarrow> book_search_tool json_loads search (QStr (ustr ''{}'')) = search (JStr (ustr ''{}''))"
  by (simp add: book_search_tool_def clean_query_of_def query_or_first_def first_value_def
      strip_def is_space_def ustr_def)

text \<open>
  C10. On the empty dict the tool returns no message: \<open>list(query.values())[0]\<close> raises
  \<open>IndexError\<close> outside any \<open>try\<close>, and the exception leaves the tool.
\<close>

theorem book_search_tool_empty_dict:
  "book_search_tool json_loads search (QDict []) = Inl IndexError"
  by (simp add: book_search_tool_def clean_query_of_def query_or_first_def first_value_def)

end
